theory Spec2Isabelle
  imports Complex_Main "HOL-Library.Word"
begin

section \<open>Brute-force convex hull (kwfarkas42.cpp)\<close>

text \<open>
  The development embeds the two functions of the algorithmic core,
  \<^verbatim>\<open>brute_force_convex_hull\<close> and \<^verbatim>\<open>find_hull\<close>, together with the parts of the
  standard library they rely on (\<^verbatim>\<open>std::vector\<close> subscripting and size, \<^verbatim>\<open>std::pair\<close>
  comparison, \<^verbatim>\<open>std::set\<close> insertion).

  Conventions of the embedding:
  \<^item> a \<^verbatim>\<open>double\<close> is a finite value (the real number it denotes), an infinity or NaN, and
    an arithmetic operation on doubles is the exact operation followed by rounding to the
    nearest double (IEEE 754 binary64, ties to the even significand, overflow to an
    infinity), each operation of an expression being rounded on its own; the coordinates
    of the points are finite, as the specification requires;
  \<^item> \<^verbatim>\<open>long long unsigned int\<close> and the result of \<^verbatim>\<open>size()\<close> are 64-bit words, so that
    \<^verbatim>\<open>pts.size() - 1\<close> wraps around on an empty vector as it does in the program;
  \<^item> a \<^verbatim>\<open>std::vector\<close> is a list; subscripting outside the vector (undefined behaviour
    in C++) is the error value \<open>out_of_range\<close>;
  \<^item> a thrown \<^verbatim>\<open>std::runtime_error\<close> is the error value \<open>runtime_error\<close> carrying the
    message; an output parameter is passed in and returned updated; where it matters
    which vector a parameter refers to, the vectors live in a memory and the parameters
    are addresses.
\<close>

subsection \<open>Data\<close>

type_synonym point = "real \<times> real"

type_synonym line_segment = "point \<times> point"

type_synonym size_t = "64 word"

datatype error = runtime_error string | out_of_range

definition get_first :: "line_segment \<Rightarrow> point" where
  "get_first sgmt = fst sgmt"

definition get_second :: "line_segment \<Rightarrow> point" where
  "get_second sgmt = snd sgmt"

subsection \<open>Arithmetic on doubles\<close>

text \<open>\<open>floor_log2 x\<close> is the integer part of the binary logarithm of \<open>x \<ge> 1\<close>.\<close>

function floor_log2 :: "real \<Rightarrow> int" where
  "floor_log2 x = (if x < 2 then 0 else floor_log2 (x / 2) + 1)"
  by pat_completeness auto
termination
proof (relation "measure (\<lambda>x. nat \<lfloor>x\<rfloor>)", goal_cases)
  case 1
  show ?case by simp
next
  case (2 x)
  then have "\<lfloor>x / 2\<rfloor> < \<lfloor>x\<rfloor>" "0 < \<lfloor>x\<rfloor>" by linarith+
  then show ?case by simp
qed

declare floor_log2.simps [simp del]

text \<open>The binary exponent \<open>e\<close> of a number other than 0: \<open>2\<^sup>e \<le> \<bar>x\<bar> < 2\<^sup>e\<^sup>+\<^sup>1\<close>.\<close>

definition exponent :: "real \<Rightarrow> int" where
  "exponent x =
     (if 1 \<le> \<bar>x\<bar> then floor_log2 \<bar>x\<bar>
      else (let z = 1 / \<bar>x\<bar>; k = floor_log2 z in if 2 powi k = z then - k else - k - 1))"

text \<open>Rounding to the nearest integer, a tie going to the even one.\<close>

definition round_half_even :: "real \<Rightarrow> int" where
  "round_half_even y =
     (let f = \<lfloor>y\<rfloor>; d = y - of_int f in
      if d < 1 / 2 then f else if 1 / 2 < d then f + 1 else if even f then f else f + 1)"

text \<open>
  Rounding to 53 significant bits: the unit in the last place of a number with exponent \<open>e\<close>
  is \<open>2\<^sup>e\<^sup>-\<^sup>5\<^sup>2\<close>; below the smallest normal exponent the unit stays \<open>2\<^sup>-\<^sup>1\<^sup>0\<^sup>7\<^sup>4\<close>.
\<close>

definition round_nearest :: "real \<Rightarrow> real" where
  "round_nearest x =
     (if x = 0 then 0
      else (let u = 2 powi (max (exponent x) (- 1022) - 52)
            in of_int (round_half_even (x / u)) * u))"

datatype double = Finite real | PInf | MInf | NaN

text \<open>The double nearest to a real number; beyond the largest double the result is infinite.\<close>

definition round_double :: "real \<Rightarrow> double" where
  "round_double x =
     (let r = round_nearest x in
      if 2 ^ 1024 \<le> \<bar>r\<bar> then (if 0 < x then PInf else MInf) else Finite r)"

text \<open>The operators \<^verbatim>\<open>+\<close>, \<^verbatim>\<open>-\<close>, \<^verbatim>\<open>*\<close> and \<^verbatim>\<open><\<close> of \<^verbatim>\<open>double\<close>.\<close>

fun dadd :: "double \<Rightarrow> double \<Rightarrow> double" where
  "dadd (Finite x) (Finite y) = round_double (x + y)"
| "dadd NaN _ = NaN"
| "dadd _ NaN = NaN"
| "dadd PInf MInf = NaN"
| "dadd MInf PInf = NaN"
| "dadd PInf _ = PInf"
| "dadd _ PInf = PInf"
| "dadd MInf _ = MInf"
| "dadd _ MInf = MInf"

fun dsub :: "double \<Rightarrow> double \<Rightarrow> double" where
  "dsub (Finite x) (Finite y) = round_double (x - y)"
| "dsub NaN _ = NaN"
| "dsub _ NaN = NaN"
| "dsub PInf PInf = NaN"
| "dsub MInf MInf = NaN"
| "dsub PInf _ = PInf"
| "dsub _ PInf = MInf"
| "dsub MInf _ = MInf"
| "dsub _ MInf = PInf"

fun dmul :: "double \<Rightarrow> double \<Rightarrow> double" where
  "dmul (Finite x) (Finite y) = round_double (x * y)"
| "dmul NaN _ = NaN"
| "dmul _ NaN = NaN"
| "dmul PInf (Finite y) = (if y = 0 then NaN else if 0 < y then PInf else MInf)"
| "dmul MInf (Finite y) = (if y = 0 then NaN else if 0 < y then MInf else PInf)"
| "dmul (Finite x) PInf = (if x = 0 then NaN else if 0 < x then PInf else MInf)"
| "dmul (Finite x) MInf = (if x = 0 then NaN else if 0 < x then MInf else PInf)"
| "dmul PInf PInf = PInf"
| "dmul PInf MInf = MInf"
| "dmul MInf PInf = MInf"
| "dmul MInf MInf = PInf"

fun dless :: "double \<Rightarrow> double \<Rightarrow> bool" where
  "dless (Finite x) (Finite y) = (x < y)"
| "dless NaN _ = False"
| "dless _ NaN = False"
| "dless _ MInf = False"
| "dless MInf _ = True"
| "dless PInf _ = False"
| "dless _ PInf = True"

subsection \<open>Vectors\<close>

text \<open>\<^verbatim>\<open>pts.size()\<close>: the number of elements as a 64-bit unsigned value.\<close>

definition size_vec :: "'a list \<Rightarrow> size_t" where
  "size_vec xs = word_of_nat (length xs)"

text \<open>\<^verbatim>\<open>pts[i]\<close>: the element at position \<open>i\<close>; outside the vector the access is an error.\<close>

definition subscript :: "'a list \<Rightarrow> size_t \<Rightarrow> error + 'a" where
  "subscript xs i = (if unat i < length xs then Inr (xs ! unat i) else Inl out_of_range)"

subsection \<open>The edge enumerator\<close>

text \<open>
  The innermost loop (lines 204--212): \<open>k\<close> runs over all points, \<open>LT\<close> and \<open>GT\<close> record
  whether some point lies strictly on the negative or the positive side of \<open>ax + by = c\<close>.
\<close>

function scan_points ::
  "point list \<Rightarrow> double \<Rightarrow> double \<Rightarrow> double \<Rightarrow> size_t \<Rightarrow> bool \<Rightarrow> bool \<Rightarrow>
     error + (bool \<times> bool)" where
  "scan_points pts a b c k LT GT =
     (if k < size_vec pts then
        (case subscript pts k of
           Inl e \<Rightarrow> Inl e
         | Inr p_k \<Rightarrow>
             (let val = dsub (dadd (dmul a (Finite (fst p_k))) (dmul b (Finite (snd p_k)))) c in
              if dless val (Finite 0) then scan_points pts a b c (k + 1) True GT
              else if dless (Finite 0) val then scan_points pts a b c (k + 1) LT True
              else scan_points pts a b c (k + 1) LT GT))
      else Inr (LT, GT))"
  by pat_completeness auto
termination
proof -
  have decr: "unat (n - (k + 1)) < unat (n - k)" if "k < n" for k n :: size_t
    using that by unat_arith
  show ?thesis
    by (relation "measure (\<lambda>(pts, a, b, c, k, LT, GT). unat (size_vec pts - k))") (auto intro: decr)
qed

text \<open>
  The middle loop (lines 193--221): for fixed \<open>i\<close>, \<open>j\<close> runs from \<open>i + 1\<close> to the end; the
  segment from \<open>pts[i]\<close> to \<open>pts[j]\<close> is pushed onto \<open>ret_sgmts\<close> unless both flags are set.
\<close>

function scan_pairs ::
  "point list \<Rightarrow> size_t \<Rightarrow> size_t \<Rightarrow> line_segment list \<Rightarrow> error + line_segment list" where
  "scan_pairs pts i j ret_sgmts =
     (if j < size_vec pts then
        (case subscript pts j of
           Inl e \<Rightarrow> Inl e
         | Inr p_j \<Rightarrow>
        (case subscript pts i of
           Inl e \<Rightarrow> Inl e
         | Inr p_i \<Rightarrow>
             (let a = dsub (Finite (snd p_j)) (Finite (snd p_i));
                  b = dsub (Finite (fst p_i)) (Finite (fst p_j));
                  c = dsub (dmul (Finite (snd p_j)) (Finite (fst p_i)))
                        (dmul (Finite (snd p_i)) (Finite (fst p_j)))
              in case scan_points pts a b c 0 False False of
                   Inl e \<Rightarrow> Inl e
                 | Inr (LT, GT) \<Rightarrow>
                     if LT \<noteq> True \<or> GT \<noteq> True
                     then scan_pairs pts i (j + 1) (ret_sgmts @ [(p_i, p_j)])
                     else scan_pairs pts i (j + 1) ret_sgmts)))
      else Inr ret_sgmts)"
  by pat_completeness auto
termination
proof -
  have decr: "unat (n - (k + 1)) < unat (n - k)" if "k < n" for k n :: size_t
    using that by unat_arith
  show ?thesis
    by (relation "measure (\<lambda>(pts, i, j, ret_sgmts). unat (size_vec pts - j))") (auto intro: decr)
qed

text \<open>The outer loop (lines 190--222): \<open>i\<close> runs while \<open>i < pts.size() - 1\<close>, in 64 bits.\<close>

function scan_origins ::
  "point list \<Rightarrow> size_t \<Rightarrow> line_segment list \<Rightarrow> error + line_segment list" where
  "scan_origins pts i ret_sgmts =
     (if i < size_vec pts - 1 then
        (case scan_pairs pts i (i + 1) ret_sgmts of
           Inl e \<Rightarrow> Inl e
         | Inr ret_sgmts' \<Rightarrow> scan_origins pts (i + 1) ret_sgmts')
      else Inr ret_sgmts)"
  by pat_completeness auto
termination
proof -
  have decr: "unat (n - (k + 1)) < unat (n - k)" if "k < n" for k n :: size_t
    using that by unat_arith
  have "unat (n - k - 2) < unat (n - 1 - k)" if "k < n - 1" for k n :: size_t
    using decr [OF that] by simp
  then show ?thesis
    by (relation "measure (\<lambda>(pts, i, ret_sgmts). unat (size_vec pts - 1 - i))") auto
qed

declare scan_points.simps [simp del] scan_pairs.simps [simp del] scan_origins.simps [simp del]

text \<open>\<^verbatim>\<open>brute_force_convex_hull(pts, ret_sgmts)\<close>: the three nested loops, started at \<open>i = 0\<close>.\<close>

definition brute_force_convex_hull ::
  "point list \<Rightarrow> line_segment list \<Rightarrow> error + line_segment list" where
  "brute_force_convex_hull pts ret_sgmts = scan_origins pts 0 ret_sgmts"

subsection \<open>Ordered sets of points\<close>

text \<open>
  \<^verbatim>\<open>operator<\<close> of \<^verbatim>\<open>std::pair<double,double>\<close>, the ordering of \<^verbatim>\<open>std::set<point>\<close>:
  first components are compared first, second components break ties.
\<close>

definition point_less :: "point \<Rightarrow> point \<Rightarrow> bool" where
  "point_less p q = (fst p < fst q \<or> (\<not> fst q < fst p \<and> snd p < snd q))"

text \<open>
  A \<^verbatim>\<open>std::set<point>\<close> is the list of its elements in iteration order. Insertion puts the
  new element at its place in the order, and does nothing when an equivalent element
  (neither smaller nor greater) is present.
\<close>

fun set_insert :: "point \<Rightarrow> point list \<Rightarrow> point list" where
  "set_insert p [] = [p]"
| "set_insert p (q # qs) =
     (if point_less p q then p # q # qs
      else if point_less q p then q # set_insert p qs
      else q # qs)"

text \<open>
  \<^verbatim>\<open>std::transform(first, last, std::inserter(s, s.end()), op)\<close>: the image under \<open>op\<close>
  of every element of the range is inserted into \<open>s\<close>, from the first to the last.
\<close>

definition transform_inserter ::
  "line_segment list \<Rightarrow> point list \<Rightarrow> (line_segment \<Rightarrow> point) \<Rightarrow> point list" where
  "transform_inserter sgmts s op = fold (\<lambda>sgmt. set_insert (op sgmt)) sgmts s"

subsection \<open>The vertex extractor\<close>

text \<open>
  A run of \<^verbatim>\<open>find_hull\<close> is described by its outcome, which is \<^verbatim>\<open>ret_hull_points\<close> after
  the call or the exception that left the call (\<^verbatim>\<open>ret_hull_points\<close> is then as before),
  and by the arguments of the calls of \<^verbatim>\<open>brute_force_convex_hull\<close> made on the way.
\<close>

record run =
  outcome :: "error + point list"
  enumerator_calls :: "point list list"

definition InvalidInput :: error where
  "InvalidInput = runtime_error ''error: one or more points are required to find the convex hull''"

definition find_hull :: "point list \<Rightarrow> point list \<Rightarrow> run" where
  "find_hull pts ret_hull_points =
     (if size_vec pts = 0 then
        \<lparr>outcome = Inl InvalidInput, enumerator_calls = []\<rparr>
      else if size_vec pts = 1 then
        \<lparr>outcome = Inr (ret_hull_points @ [hd pts]), enumerator_calls = []\<rparr>
      else
        \<lparr>outcome =
           (case brute_force_convex_hull pts [] of
              Inl e \<Rightarrow> Inl e
            | Inr sgmts \<Rightarrow>
                (let pts_set = transform_inserter sgmts [] get_first;
                     pts_set = transform_inserter sgmts pts_set get_second
                 in Inr (ret_hull_points @ pts_set))),
         enumerator_calls = [pts]\<rparr>)"

text \<open>
  The operation offered to the caller: \<^verbatim>\<open>main\<close> calls \<^verbatim>\<open>find_hull\<close> with a fresh, empty
  \<^verbatim>\<open>hull_pts\<close> (lines 276 and 281) and reads the hull from it.
\<close>

definition computeHull :: "point list \<Rightarrow> error + point list" where
  "computeHull pts = outcome (find_hull pts [])"

subsection \<open>The vertex extractor on vectors in memory\<close>

text \<open>
  Both parameters of \<^verbatim>\<open>find_hull\<close> are references (line 225), and nothing keeps a caller
  from passing the same vector for both. Here the vectors live in a memory, the parameters
  are addresses, and the function returns the memory after the call. Each statement reads
  \<^verbatim>\<open>pts\<close> through its address at the moment it runs: \<^verbatim>\<open>push_back\<close> copies the element it is
  given before the vector grows, and \<^verbatim>\<open>sgmts\<close> and \<^verbatim>\<open>pts_set\<close> are locals of the call that
  are complete before \<^verbatim>\<open>std::copy\<close> writes. An exception leaves the memory as it was.
\<close>

type_synonym address = nat

type_synonym memory = "address \<Rightarrow> point list"

definition find_hull_ref :: "address \<Rightarrow> address \<Rightarrow> memory \<Rightarrow> error + memory" where
  "find_hull_ref pts ret_hull_points s =
     (if size_vec (s pts) = 0 then Inl InvalidInput
      else if size_vec (s pts) = 1 then
        Inr (s(ret_hull_points := s ret_hull_points @ [hd (s pts)]))
      else
        (case brute_force_convex_hull (s pts) [] of
           Inl e \<Rightarrow> Inl e
         | Inr sgmts \<Rightarrow>
             (let pts_set = transform_inserter sgmts [] get_first;
                  pts_set = transform_inserter sgmts pts_set get_second
              in Inr (s(ret_hull_points := s ret_hull_points @ pts_set)))))"

subsection \<open>The side test in the words of the specification\<close>

text \<open>
  The signed value of a point \<open>p\<^sub>k\<close> for the line through \<open>p\<^sub>i\<close> and \<open>p\<^sub>j\<close>, first as the
  formula reads in exact arithmetic, then as the program computes it in doubles, and the
  two flags of the acceptance rule, quantified over the whole point set.
\<close>

definition signed_value_exact :: "point \<Rightarrow> point \<Rightarrow> point \<Rightarrow> real" where
  "signed_value_exact p_i p_j p_k =
     (let a = snd p_j - snd p_i;
          b = fst p_i - fst p_j;
          c = snd p_j * fst p_i - snd p_i * fst p_j
      in a * fst p_k + b * snd p_k - c)"

definition signed_value :: "point \<Rightarrow> point \<Rightarrow> point \<Rightarrow> double" where
  "signed_value p_i p_j p_k =
     (let a = dsub (Finite (snd p_j)) (Finite (snd p_i));
          b = dsub (Finite (fst p_i)) (Finite (fst p_j));
          c = dsub (dmul (Finite (snd p_j)) (Finite (fst p_i)))
                (dmul (Finite (snd p_i)) (Finite (fst p_j)))
      in dsub (dadd (dmul a (Finite (fst p_k))) (dmul b (Finite (snd p_k)))) c)"

definition hasNegative :: "point list \<Rightarrow> point \<Rightarrow> point \<Rightarrow> bool" where
  "hasNegative pts p_i p_j = (\<exists>p_k \<in> set pts. dless (signed_value p_i p_j p_k) (Finite 0))"

definition hasPositive :: "point list \<Rightarrow> point \<Rightarrow> point \<Rightarrow> bool" where
  "hasPositive pts p_i p_j = (\<exists>p_k \<in> set pts. dless (Finite 0) (signed_value p_i p_j p_k))"

definition accepted :: "point list \<Rightarrow> point \<Rightarrow> point \<Rightarrow> bool" where
  "accepted pts p_i p_j = (\<not> (hasNegative pts p_i p_j \<and> hasPositive pts p_i p_j))"

text \<open>Integers of magnitude at most \<open>2\<^sup>2\<^sup>4\<close>: on such coordinates the side test does not round.\<close>

definition small_integer :: "real \<Rightarrow> bool" where
  "small_integer x = (x = of_int \<lfloor>x\<rfloor> \<and> \<bar>x\<bar> \<le> 2 ^ 24)"

text \<open>
  The accepted pairs in the order of generation, as a list comprehension over positions:
  the closed form that the three loops are shown to compute.
\<close>

definition edges_from :: "point list \<Rightarrow> nat \<Rightarrow> nat \<Rightarrow> line_segment list" where
  "edges_from pts i j =
     map (\<lambda>j'. (pts ! i, pts ! j'))
       (filter (\<lambda>j'. accepted pts (pts ! i) (pts ! j')) [j..<length pts])"

definition edges :: "point list \<Rightarrow> nat \<Rightarrow> line_segment list" where
  "edges pts i = concat (map (\<lambda>i'. edges_from pts i' (Suc i')) [i..<length pts - 1])"

text \<open>The bound of \<^verbatim>\<open>std::vector::max_size\<close>: a size fits into 64 bits.\<close>

definition vector_ok :: "'a list \<Rightarrow> bool" where
  "vector_ok xs = (length xs < 2 ^ 64)"

text \<open>
  What \<^verbatim>\<open>find_hull\<close> appends for two or more points: the contents of \<^verbatim>\<open>pts_set\<close> after the
  origins and then the destinations of the accepted pairs have been inserted.
\<close>

definition hull_of :: "point list \<Rightarrow> point list" where
  "hull_of pts =
     transform_inserter (edges pts 0) (transform_inserter (edges pts 0) [] get_first) get_second"

section \<open>Rounding to doubles\<close>

lemma floor_log2_bounds:
  assumes "1 \<le> x"
  shows "0 \<le> floor_log2 x \<and> 2 powi floor_log2 x \<le> x \<and> x < 2 powi (floor_log2 x + 1)"
  using assms
proof (induction x rule: floor_log2.induct)
  case (1 x)
  show ?case
  proof (cases "x < 2")
    case True
    then have "floor_log2 x = 0" by (subst floor_log2.simps) simp
    then show ?thesis using True "1.prems" by simp
  next
    case False
    then have half: "1 \<le> x / 2" by simp
    have step: "floor_log2 x = floor_log2 (x / 2) + 1"
      using False by (subst floor_log2.simps) simp
    let ?k = "floor_log2 (x / 2)"
    from "1.IH" [OF False half]
    have k: "0 \<le> ?k" and lo: "2 powi ?k \<le> x / 2" and hi: "x / 2 < 2 powi (?k + 1)"
      by simp_all
    have p1: "(2::real) powi (?k + 1) = 2 powi ?k * 2"
      by (rule power_int_add_1) simp
    have p2: "(2::real) powi (?k + 1 + 1) = 2 powi (?k + 1) * 2"
      by (rule power_int_add_1) simp
    have "2 powi (?k + 1) \<le> x" using lo p1 by linarith
    moreover have "x < 2 powi (?k + 1 + 1)" using hi p2 by linarith
    ultimately show ?thesis using k step by simp
  qed
qed

lemma exponent_bounds:
  assumes "x \<noteq> 0"
  shows "2 powi exponent x \<le> \<bar>x\<bar> \<and> \<bar>x\<bar> < 2 powi (exponent x + 1)"
proof (cases "1 \<le> \<bar>x\<bar>")
  case True
  then show ?thesis using floor_log2_bounds [OF True] by (simp add: exponent_def)
next
  case False
  define z where "z = 1 / \<bar>x\<bar>"
  define k where "k = floor_log2 z"
  have xpos: "0 < \<bar>x\<bar>" using assms by simp
  have z1: "1 \<le> z" using False xpos by (simp add: z_def)
  have zpos: "0 < z" using z1 by linarith
  have x_eq: "\<bar>x\<bar> = 1 / z" using xpos by (simp add: z_def)
  from floor_log2_bounds [OF z1]
  have lo: "2 powi k \<le> z" and hi: "z < 2 powi (k + 1)" by (simp_all add: k_def)
  have inv: "(2::real) powi (- n) = 1 / 2 powi n" for n :: int
    by (simp add: power_int_minus field_simps)
  have pos: "0 < (2::real) powi n" for n :: int by simp
  show ?thesis
  proof (cases "2 powi k = z")
    case True
    then have e: "exponent x = - k"
      using False by (simp add: exponent_def z_def k_def Let_def)
    have "\<bar>x\<bar> = 2 powi (- k)" using True x_eq inv by simp
    moreover have "(2::real) powi (- k) < 2 powi (- k + 1)"
      by (rule power_int_strict_increasing) simp_all
    ultimately show ?thesis using e by simp
  next
    case neq: False
    then have e: "exponent x = - k - 1"
      using False by (simp add: exponent_def z_def k_def Let_def)
    have up: "\<bar>x\<bar> < 2 powi (- k)"
    proof -
      have "2 powi k < z" using lo neq by simp
      then have "1 / z < 1 / 2 powi k" using pos [of k] by (simp add: frac_less2)
      then show ?thesis using x_eq inv by simp
    qed
    have down: "2 powi (- k - 1) \<le> \<bar>x\<bar>"
    proof -
      have "1 / 2 powi (k + 1) \<le> 1 / z" using hi zpos by (simp add: frac_le)
      moreover have "(2::real) powi (- k - 1) = 1 / 2 powi (k + 1)"
        using inv [of "k + 1"] by simp
      ultimately show ?thesis using x_eq by simp
    qed
    show ?thesis using up down e by simp
  qed
qed

lemma exponent_unique:
  assumes "2 powi e \<le> \<bar>x\<bar>" "\<bar>x\<bar> < 2 powi (e + 1)"
  shows "exponent x = e"
proof -
  have "0 < (2::real) powi e" by simp
  then have "0 < \<bar>x\<bar>" using assms(1) by linarith
  then have "x \<noteq> 0" by simp
  from exponent_bounds [OF this]
  have lo: "2 powi exponent x \<le> \<bar>x\<bar>" and hi: "\<bar>x\<bar> < 2 powi (exponent x + 1)" by simp_all
  have "\<not> exponent x < e"
  proof
    assume "exponent x < e"
    then have "(2::real) powi (exponent x + 1) \<le> 2 powi e"
      by (intro power_int_increasing) simp_all
    then show False using hi assms(1) by linarith
  qed
  moreover have "\<not> e < exponent x"
  proof
    assume "e < exponent x"
    then have "(2::real) powi (e + 1) \<le> 2 powi exponent x"
      by (intro power_int_increasing) simp_all
    then show False using lo assms(2) by linarith
  qed
  ultimately show ?thesis by simp
qed

lemma round_half_even_of_int: "round_half_even (of_int n) = n"
  by (simp add: round_half_even_def)

lemma round_nearest_at:
  assumes "2 powi e \<le> \<bar>x\<bar>" "\<bar>x\<bar> < 2 powi (e + 1)" "- 1022 \<le> e"
  shows "round_nearest x = of_int (round_half_even (x / 2 powi (e - 52))) * 2 powi (e - 52)"
proof -
  have "0 < (2::real) powi e" by simp
  then have "0 < \<bar>x\<bar>" using assms(1) by linarith
  then have "x \<noteq> 0" by simp
  moreover have "exponent x = e" using assms(1,2) by (rule exponent_unique)
  moreover have "max e (- 1022) = e" using assms(3) by simp
  ultimately show ?thesis by (simp add: round_nearest_def Let_def)
qed

lemma round_nearest_of_int:
  assumes "\<bar>n\<bar> < 2 ^ 53"
  shows "round_nearest (of_int n) = of_int n"
proof (cases "n = 0")
  case True
  then show ?thesis by (simp add: round_nearest_def)
next
  case False
  define x :: real where "x = of_int n"
  define e where "e = exponent x"
  have x0: "x \<noteq> 0" using False by (simp add: x_def)
  have ax: "\<bar>x\<bar> = of_int \<bar>n\<bar>" by (simp add: x_def)
  from exponent_bounds [OF x0]
  have lo: "2 powi e \<le> \<bar>x\<bar>" and hi: "\<bar>x\<bar> < 2 powi (e + 1)" by (simp_all add: e_def)
  have one: "1 \<le> \<bar>x\<bar>" using False unfolding ax by (simp add: int_one_le_iff_zero_less)
  have small: "\<bar>x\<bar> < 2 ^ 53"
  proof -
    have "(of_int \<bar>n\<bar> :: real) < of_int (2 ^ 53)" using assms by (simp only: of_int_less_iff)
    then show ?thesis unfolding ax by simp
  qed
  have e0: "0 \<le> e"
  proof (rule ccontr)
    assume "\<not> 0 \<le> e"
    then have "(2::real) powi (e + 1) \<le> 2 powi 0"
      by (intro power_int_increasing) simp_all
    then show False using hi one by simp
  qed
  have e52: "e \<le> 52"
  proof (rule ccontr)
    assume "\<not> e \<le> 52"
    then have "(2::real) powi 53 \<le> 2 powi e"
      by (intro power_int_increasing) simp_all
    then show False using lo small by simp
  qed
  define m where "m = nat (52 - e)"
  have u: "(2::real) powi (e - 52) = 1 / 2 ^ m"
  proof -
    have "e - 52 = - int m" using e52 by (simp add: m_def)
    then have "(2::real) powi (e - 52) = 2 powi (- int m)" by simp
    also have "\<dots> = inverse (2 powi int m)" by (rule power_int_minus)
    also have "\<dots> = 1 / 2 ^ m" by (simp add: inverse_eq_divide)
    finally show ?thesis .
  qed
  have quot: "x / (1 / 2 ^ m) = of_int (n * 2 ^ m)"
    by (simp add: x_def)
  have "round_nearest x = of_int (round_half_even (x / 2 powi (e - 52))) * 2 powi (e - 52)"
    using x0 e0 by (simp add: round_nearest_def e_def Let_def)
  also have "\<dots> = of_int (n * 2 ^ m) * (1 / 2 ^ m)"
    unfolding u quot round_half_even_of_int ..
  also have "\<dots> = x" by (simp add: x_def)
  finally show ?thesis by (simp add: x_def)
qed

lemma round_double_of_int:
  assumes "\<bar>n\<bar> < 2 ^ 53"
  shows "round_double (of_int n) = Finite (of_int n)"
proof -
  have "(of_int \<bar>n\<bar> :: real) < of_int (2 ^ 53)" using assms by (simp only: of_int_less_iff)
  then have "\<bar>of_int n :: real\<bar> < 2 ^ 53" by simp
  also have "(2::real) ^ 53 \<le> 2 ^ 1024" by (rule power_increasing) simp_all
  finally have "\<not> 2 ^ 1024 \<le> \<bar>of_int n :: real\<bar>" by simp
  then show ?thesis
    by (simp add: round_double_def round_nearest_of_int [OF assms])
qed

lemma round_double_numeral:
  "(numeral k :: int) < 2 ^ 53 \<Longrightarrow> round_double (numeral k) = Finite (numeral k)"
  "(numeral k :: int) < 2 ^ 53 \<Longrightarrow> round_double (- numeral k) = Finite (- numeral k)"
  "round_double 0 = Finite 0"
  "round_double 1 = Finite 1"
  "round_double (- 1) = Finite (- 1)"
  using round_double_of_int [of "numeral k"] round_double_of_int [of "- numeral k"]
    round_double_of_int [of 0] round_double_of_int [of 1] round_double_of_int [of "- 1"]
  by simp_all

subsection \<open>Rounding integers beyond \<open>2\<^sup>5\<^sup>3\<close>\<close>

lemma round_half_even_shift:
  "round_half_even (of_int n / 2 ^ s) =
     (if 2 * (n mod 2 ^ s) < 2 ^ s then n div 2 ^ s
      else if 2 ^ s < 2 * (n mod 2 ^ s) then n div 2 ^ s + 1
      else if even (n div 2 ^ s) then n div 2 ^ s else n div 2 ^ s + 1)"
proof -
  define d :: int where "d = 2 ^ s"
  have dpos: "0 < d" by (simp add: d_def)
  have rd: "(2::real) ^ s = of_int d" by (simp add: d_def)
  have fl: "\<lfloor>(of_int n :: real) / of_int d\<rfloor> = n div d"
    by (rule floor_divide_of_int_eq)
  have "real_of_int n = real_of_int (n div d * d + n mod d)" by simp
  also have "\<dots> = real_of_int (n div d) * real_of_int d + real_of_int (n mod d)"
    by (simp only: of_int_add of_int_mult)
  finally have "real_of_int n / real_of_int d =
      real_of_int (n div d) + real_of_int (n mod d) / real_of_int d"
    using dpos by (simp add: field_simps)
  then have frac: "real_of_int n / real_of_int d - real_of_int (n div d) =
      real_of_int (n mod d) / real_of_int d" by simp
  have lt: "real_of_int (n mod d) / real_of_int d < 1 / 2 \<longleftrightarrow> 2 * (n mod d) < d"
  proof -
    have "real_of_int (n mod d) / real_of_int d < 1 / 2 \<longleftrightarrow>
        real_of_int (2 * (n mod d)) < real_of_int d"
      using dpos by (simp add: field_simps)
    then show ?thesis by (simp only: of_int_less_iff)
  qed
  have gt: "1 / 2 < real_of_int (n mod d) / real_of_int d \<longleftrightarrow> d < 2 * (n mod d)"
  proof -
    have "1 / 2 < real_of_int (n mod d) / real_of_int d \<longleftrightarrow>
        real_of_int d < real_of_int (2 * (n mod d))"
      using dpos by (simp add: field_simps)
    then show ?thesis by (simp only: of_int_less_iff)
  qed
  show ?thesis
    unfolding round_half_even_def Let_def rd fl frac lt gt d_def [symmetric] ..
qed

lemma round_half_even_near: "\<bar>of_int (round_half_even y) - y\<bar> \<le> 1"
proof -
  have fl: "of_int \<lfloor>y\<rfloor> \<le> y" "y < of_int \<lfloor>y\<rfloor> + 1" by linarith+
  have "round_half_even y = \<lfloor>y\<rfloor> \<or> round_half_even y = \<lfloor>y\<rfloor> + 1"
    by (simp add: round_half_even_def Let_def)
  then show ?thesis
  proof
    assume "round_half_even y = \<lfloor>y\<rfloor>"
    then have "real_of_int (round_half_even y) = of_int \<lfloor>y\<rfloor>" by simp
    then show ?thesis using fl by linarith
  next
    assume "round_half_even y = \<lfloor>y\<rfloor> + 1"
    then have "real_of_int (round_half_even y) = of_int \<lfloor>y\<rfloor> + 1" by simp
    then show ?thesis using fl by linarith
  qed
qed

text \<open>An integer with \<open>53 + s\<close> bits is rounded to a multiple of \<open>2\<^sup>s\<close>.\<close>

lemma round_double_shift:
  assumes "s \<le> 900" "2 ^ (52 + s) \<le> \<bar>n\<bar>" "\<bar>n\<bar> < 2 ^ (53 + s)"
  shows "round_double (of_int n) =
     Finite (of_int (if 2 * (n mod 2 ^ s) < 2 ^ s then n div 2 ^ s
                     else if 2 ^ s < 2 * (n mod 2 ^ s) then n div 2 ^ s + 1
                     else if even (n div 2 ^ s) then n div 2 ^ s else n div 2 ^ s + 1) * 2 ^ s)"
proof -
  define m where "m = round_half_even (of_int n / 2 ^ s)"
  have "(of_int (2 ^ (52 + s)) :: real) \<le> of_int \<bar>n\<bar>" "(of_int \<bar>n\<bar> :: real) < of_int (2 ^ (53 + s))"
    using assms(2,3) by (simp_all only: of_int_le_iff of_int_less_iff)
  then have b: "2 powi (52 + int s) \<le> \<bar>of_int n :: real\<bar>"
    "\<bar>of_int n :: real\<bar> < 2 powi (52 + int s + 1)"
    by (simp_all add: power_int_add power_add)
  have "round_nearest (of_int n) =
      of_int (round_half_even (of_int n / 2 powi (52 + int s - 52))) * 2 powi (52 + int s - 52)"
    using b by (rule round_nearest_at) simp
  then have r: "round_nearest (of_int n) = of_int m * 2 ^ s"
    by (simp add: m_def)
  have "\<bar>round_nearest (of_int n)\<bar> < 2 ^ 1024"
  proof -
    have half: "\<bar>of_int m - of_int n / (2::real) ^ s\<bar> \<le> 1"
      unfolding m_def by (rule round_half_even_near)
    have "\<bar>of_int n / (2::real) ^ s\<bar> < 2 ^ 53"
    proof -
      have "\<bar>of_int n :: real\<bar> < 2 ^ 53 * 2 ^ s" using b(2) by (simp add: power_int_add power_add)
      then show ?thesis by (simp add: field_simps)
    qed
    moreover have "(2::real) ^ 53 + 1 \<le> 2 ^ 54" by simp
    ultimately have "\<bar>of_int m :: real\<bar> < 2 ^ 54" using half by linarith
    then have "\<bar>of_int m * (2::real) ^ s\<bar> < 2 ^ 54 * 2 ^ s"
      by (simp add: abs_mult)
    also have "\<dots> = (2::real) ^ (54 + s)" by (simp add: power_add)
    also have "\<dots> \<le> 2 ^ 1024" using assms(1) by (intro power_increasing) simp_all
    finally show ?thesis unfolding r .
  qed
  then have "round_double (of_int n) = Finite (of_int m * 2 ^ s)"
    by (simp add: round_double_def r)
  then show ?thesis unfolding m_def round_half_even_shift .
qed

lemma round_double_examples:
  "round_double 20000000500000003 = Finite 20000000500000004"
  "round_double (- 20000000499999997) = Finite (- 20000000499999996)"
  "round_double (- 20000000400000002) = Finite (- 20000000400000000)"
  "round_double (- 20000000499999994) = Finite (- 20000000499999992)"
  "round_double (- 19999999099999982) = Finite (- 19999999099999984)"
  "round_double (- 20000000499999998) = Finite (- 20000000500000000)"
  using round_double_shift [of 2 20000000500000003] round_double_shift [of 2 "- 20000000499999997"]
    round_double_shift [of 2 "- 20000000400000002"] round_double_shift [of 2 "- 20000000499999994"]
    round_double_shift [of 2 "- 19999999099999982"] round_double_shift [of 2 "- 20000000499999998"]
  by simp_all

lemma round_double_examples_55:
  "round_double 40000000200000000 = Finite 40000000200000000"
  "round_double 40000000400000001 = Finite 40000000400000000"
  "round_double 40000000600000000 = Finite 40000000600000000"
  "round_double 40000000800000003 = Finite 40000000800000000"
  "round_double 40000001200000009 = Finite 40000001200000008"
  using round_double_shift [of 3 40000000200000000] round_double_shift [of 3 40000000400000001]
    round_double_shift [of 3 40000000600000000] round_double_shift [of 3 40000000800000003]
    round_double_shift [of 3 40000001200000009]
  by simp_all

lemmas double_ops = round_double_numeral

lemmas evaluate_hull =
  hull_of_def edges_def edges_from_def accepted_def hasNegative_def hasPositive_def
  signed_value_def transform_inserter_def get_first_def get_second_def point_less_def upt_rec
  double_ops

subsection \<open>Small integers: the side test without rounding\<close>

lemma double_ops_of_int:
  "\<bar>a + b\<bar> < 2 ^ 53 \<Longrightarrow> dadd (Finite (of_int a)) (Finite (of_int b)) = Finite (of_int (a + b))"
  "\<bar>a - b\<bar> < 2 ^ 53 \<Longrightarrow> dsub (Finite (of_int a)) (Finite (of_int b)) = Finite (of_int (a - b))"
  "\<bar>a * b\<bar> < 2 ^ 53 \<Longrightarrow> dmul (Finite (of_int a)) (Finite (of_int b)) = Finite (of_int (a * b))"
  using round_double_of_int [of "a + b"] round_double_of_int [of "a - b"]
    round_double_of_int [of "a * b"]
  by simp_all

lemma abs_mult_le:
  fixes a b :: int
  assumes "\<bar>a\<bar> \<le> m" "\<bar>b\<bar> \<le> n"
  shows "\<bar>a * b\<bar> \<le> m * n"
proof -
  have "\<bar>a * b\<bar> = \<bar>a\<bar> * \<bar>b\<bar>" by (rule abs_mult)
  also have "\<dots> \<le> m * n" using assms by (intro mult_mono) simp_all
  finally show ?thesis .
qed

lemma signed_value_of_int:
  fixes xi yi xj yj xk yk :: int
  assumes "\<bar>xi\<bar> \<le> 2 ^ 24" "\<bar>yi\<bar> \<le> 2 ^ 24" "\<bar>xj\<bar> \<le> 2 ^ 24" "\<bar>yj\<bar> \<le> 2 ^ 24"
    "\<bar>xk\<bar> \<le> 2 ^ 24" "\<bar>yk\<bar> \<le> 2 ^ 24"
  shows "signed_value (of_int xi, of_int yi) (of_int xj, of_int yj) (of_int xk, of_int yk) =
     Finite (of_int ((yj - yi) * xk + (xi - xj) * yk - (yj * xi - yi * xj)))"
proof -
  define a where "a = yj - yi"
  define b where "b = xi - xj"
  define c where "c = yj * xi - yi * xj"
  have a: "\<bar>a\<bar> \<le> 2 ^ 25" and b: "\<bar>b\<bar> \<le> 2 ^ 25"
    using assms unfolding a_def b_def by simp_all
  have p1: "\<bar>yj * xi\<bar> \<le> 2 ^ 24 * 2 ^ 24" and p2: "\<bar>yi * xj\<bar> \<le> 2 ^ 24 * 2 ^ 24"
    using assms by (intro abs_mult_le; simp)+
  have c: "\<bar>c\<bar> \<le> 2 ^ 49" using p1 p2 unfolding c_def by simp
  have q1: "\<bar>a * xk\<bar> \<le> 2 ^ 25 * 2 ^ 24" and q2: "\<bar>b * yk\<bar> \<le> 2 ^ 25 * 2 ^ 24"
    using a b assms by (intro abs_mult_le; simp)+
  have s: "\<bar>a * xk + b * yk\<bar> \<le> 2 ^ 50" using q1 q2 by simp
  have v: "\<bar>a * xk + b * yk - c\<bar> \<le> 2 ^ 51" using s c by simp
  have ea: "dsub (Finite (of_int yj)) (Finite (of_int yi)) = Finite (of_int a)"
    unfolding a_def using a by (intro double_ops_of_int) (simp add: a_def)
  have eb: "dsub (Finite (of_int xi)) (Finite (of_int xj)) = Finite (of_int b)"
    unfolding b_def using b by (intro double_ops_of_int) (simp add: b_def)
  have ep1: "dmul (Finite (of_int yj)) (Finite (of_int xi)) = Finite (of_int (yj * xi))"
    using p1 by (intro double_ops_of_int) simp
  have ep2: "dmul (Finite (of_int yi)) (Finite (of_int xj)) = Finite (of_int (yi * xj))"
    using p2 by (intro double_ops_of_int) simp
  have ec: "dsub (Finite (of_int (yj * xi))) (Finite (of_int (yi * xj))) = Finite (of_int c)"
    unfolding c_def using c by (intro double_ops_of_int) (simp add: c_def)
  have eq1: "dmul (Finite (of_int a)) (Finite (of_int xk)) = Finite (of_int (a * xk))"
    using q1 by (intro double_ops_of_int) simp
  have eq2: "dmul (Finite (of_int b)) (Finite (of_int yk)) = Finite (of_int (b * yk))"
    using q2 by (intro double_ops_of_int) simp
  have es: "dadd (Finite (of_int (a * xk))) (Finite (of_int (b * yk))) = Finite (of_int (a * xk + b * yk))"
    using s by (intro double_ops_of_int) simp
  have ev: "dsub (Finite (of_int (a * xk + b * yk))) (Finite (of_int c)) =
      Finite (of_int (a * xk + b * yk - c))"
    using v by (intro double_ops_of_int) simp
  show ?thesis
    unfolding signed_value_def Let_def fst_conv snd_conv ea eb ep1 ep2 ec eq1 eq2 es ev
    unfolding a_def b_def c_def ..
qed

lemma small_integerD:
  assumes "small_integer x"
  shows "x = of_int \<lfloor>x\<rfloor>" "\<bar>\<lfloor>x\<rfloor>\<bar> \<le> 2 ^ 24"
proof -
  show eq: "x = of_int \<lfloor>x\<rfloor>" using assms by (simp add: small_integer_def)
  have "\<bar>of_int \<lfloor>x\<rfloor> :: real\<bar> \<le> 2 ^ 24"
    using assms eq by (simp add: small_integer_def)
  then have "(of_int \<bar>\<lfloor>x\<rfloor>\<bar> :: real) \<le> of_int (2 ^ 24)" by simp
  then show "\<bar>\<lfloor>x\<rfloor>\<bar> \<le> 2 ^ 24" by (simp only: of_int_le_iff)
qed

lemma signed_value_small_endpoints:
  assumes "small_integer (fst p)" "small_integer (snd p)"
    "small_integer (fst q)" "small_integer (snd q)"
  shows "signed_value p q p = Finite 0" "signed_value p q q = Finite 0"
proof -
  define xi where "xi = \<lfloor>fst p\<rfloor>"
  define yi where "yi = \<lfloor>snd p\<rfloor>"
  define xj where "xj = \<lfloor>fst q\<rfloor>"
  define yj where "yj = \<lfloor>snd q\<rfloor>"
  note d = xi_def yi_def xj_def yj_def
  have p: "p = (of_int xi, of_int yi)" and q: "q = (of_int xj, of_int yj)"
    using assms [THEN small_integerD(1)] by (simp_all add: d prod_eq_iff)
  have b: "\<bar>xi\<bar> \<le> 2 ^ 24" "\<bar>yi\<bar> \<le> 2 ^ 24" "\<bar>xj\<bar> \<le> 2 ^ 24" "\<bar>yj\<bar> \<le> 2 ^ 24"
    using assms [THEN small_integerD(2)] by (simp_all add: d)
  have "(yj - yi) * xi + (xi - xj) * yi - (yj * xi - yi * xj) = 0"
    "(yj - yi) * xj + (xi - xj) * yj - (yj * xi - yi * xj) = 0"
    by (simp_all add: algebra_simps)
  then show "signed_value p q p = Finite 0" "signed_value p q q = Finite 0"
    unfolding p q
    using signed_value_of_int [OF b(1,2,3,4) b(1,2)] signed_value_of_int [OF b(1,2,3,4) b(3,4)]
    by simp_all
qed

lemma signed_value_small:
  assumes "small_integer (fst p)" "small_integer (snd p)"
    "small_integer (fst q)" "small_integer (snd q)"
    "small_integer (fst r)" "small_integer (snd r)"
  shows "signed_value p q r = Finite (signed_value_exact p q r)"
proof -
  define xi where "xi = \<lfloor>fst p\<rfloor>"
  define yi where "yi = \<lfloor>snd p\<rfloor>"
  define xj where "xj = \<lfloor>fst q\<rfloor>"
  define yj where "yj = \<lfloor>snd q\<rfloor>"
  define xk where "xk = \<lfloor>fst r\<rfloor>"
  define yk where "yk = \<lfloor>snd r\<rfloor>"
  note d = xi_def yi_def xj_def yj_def xk_def yk_def
  have p: "p = (of_int xi, of_int yi)" and q: "q = (of_int xj, of_int yj)"
    and r: "r = (of_int xk, of_int yk)"
    using assms [THEN small_integerD(1)] by (simp_all add: d prod_eq_iff)
  have b: "\<bar>xi\<bar> \<le> 2 ^ 24" "\<bar>yi\<bar> \<le> 2 ^ 24" "\<bar>xj\<bar> \<le> 2 ^ 24" "\<bar>yj\<bar> \<le> 2 ^ 24"
    "\<bar>xk\<bar> \<le> 2 ^ 24" "\<bar>yk\<bar> \<le> 2 ^ 24"
    using assms [THEN small_integerD(2)] by (simp_all add: d)
  have "signed_value_exact p q r =
      of_int ((yj - yi) * xk + (xi - xj) * yk - (yj * xi - yi * xj))"
    unfolding p q r by (simp add: signed_value_exact_def)
  then show ?thesis
    unfolding p q r using signed_value_of_int [OF b] by simp
qed

subsection \<open>Known values\<close>

text \<open>
  Some values of the rounding function: the double nearest to \<open>1/10\<close>, a tie that goes to the
  even significand, and the overflow beyond the largest double.
\<close>

lemma round_double_known_values:
  "round_double (1 / 10) = Finite (3602879701896397 / 2 ^ 55)"
  "round_double (2 ^ 53 + 1) = Finite (2 ^ 53)"
  "round_double (2 ^ 53 + 3) = Finite (2 ^ 53 + 4)"
  "round_double (2 ^ 1024) = PInf"
  "round_double (- (2 ^ 1024)) = MInf"
proof -
  have "round_nearest (1 / 10) = 3602879701896397 / 2 ^ 55"
    by (subst round_nearest_at [where e = "- 4"])
      (simp_all add: round_half_even_def power_int_minus)
  then show "round_double (1 / 10) = Finite (3602879701896397 / 2 ^ 55)"
    by (simp add: round_double_def)
  have "round_nearest (2 ^ 53 + 1) = 2 ^ 53"
    by (subst round_nearest_at [where e = 53]) (simp_all add: round_half_even_def)
  then show "round_double (2 ^ 53 + 1) = Finite (2 ^ 53)"
    by (simp add: round_double_def)
  have "round_nearest (2 ^ 53 + 3) = 2 ^ 53 + 4"
    by (subst round_nearest_at [where e = 53]) (simp_all add: round_half_even_def)
  then show "round_double (2 ^ 53 + 3) = Finite (2 ^ 53 + 4)"
    by (simp add: round_double_def)
  have "round_nearest (2 ^ 1024) = 2 ^ 1024"
    by (subst round_nearest_at [where e = 1024]) (simp_all add: round_half_even_def)
  then show "round_double (2 ^ 1024) = PInf"
    by (simp add: round_double_def)
  have "round_nearest (- (2 ^ 1024)) = - (2 ^ 1024)"
    by (subst round_nearest_at [where e = 1024]) (simp_all add: round_half_even_def)
  then show "round_double (- (2 ^ 1024)) = MInf"
    by (simp add: round_double_def)
qed

section \<open>The loops in closed form\<close>

subsection \<open>Sizes and positions as 64-bit words\<close>

lemma size_vec_unat: "vector_ok xs \<Longrightarrow> unat (size_vec xs) = length xs"
  by (simp add: vector_ok_def size_vec_def unat_of_nat)

lemma less_size_vec: "vector_ok xs \<Longrightarrow> k < size_vec xs \<longleftrightarrow> unat k < length xs"
  by (simp add: word_less_nat_alt size_vec_unat)

lemma unat_succ:
  fixes k n :: size_t
  shows "k < n \<Longrightarrow> unat (k + 1) = Suc (unat k)"
  by unat_arith

lemma subscript_in: "unat k < length xs \<Longrightarrow> subscript xs k = Inr (xs ! unat k)"
  by (simp add: subscript_def)

lemma dless_asym: "dless x y \<Longrightarrow> \<not> dless y x"
  by (cases x; cases y) simp_all

subsection \<open>The scan over all points\<close>

lemma ex_from_split:
  "(\<exists>m. k \<le> m \<and> m < n \<and> P m) \<longleftrightarrow> (k < n \<and> P k) \<or> (\<exists>m. Suc k \<le> m \<and> m < n \<and> P m)"
  by (metis Suc_leI le_neq_implies_less Suc_leD order.strict_trans2 order_refl lessI less_le_not_le)

lemma scan_points_result:
  assumes "vector_ok pts"
  shows "scan_points pts a b c k LT GT =
     Inr (LT \<or> (\<exists>m. unat k \<le> m \<and> m < length pts \<and> dless (dsub (dadd (dmul a (Finite (fst (pts ! m)))) (dmul b (Finite (snd (pts ! m))))) c) (Finite 0)),
          GT \<or> (\<exists>m. unat k \<le> m \<and> m < length pts \<and> dless (Finite 0) (dsub (dadd (dmul a (Finite (fst (pts ! m)))) (dmul b (Finite (snd (pts ! m))))) c)))"
  using assms
proof (induction pts a b c k LT GT rule: scan_points.induct)
  case (1 pts a b c k LT GT)
  note ok = \<open>vector_ok pts\<close>
  show ?case
  proof (cases "k < size_vec pts")
    case False
    then have "\<not> unat k < length pts" using ok by (simp add: less_size_vec)
    then show ?thesis using False by (subst scan_points.simps) auto
  next
    case True
    then have lt: "unat k < length pts" using ok by (simp add: less_size_vec)
    have sub: "subscript pts k = Inr (pts ! unat k)" using lt by (rule subscript_in)
    have suc: "unat (k + 1) = Suc (unat k)" using True by (rule unat_succ)
    define v where "v = dsub (dadd (dmul a (Finite (fst (pts ! unat k)))) (dmul b (Finite (snd (pts ! unat k))))) c"
    note split = ex_from_split [of "unat k" "length pts"]
    consider (neg) "dless v (Finite 0)" "\<not> dless (Finite 0) v"
      | (pos) "\<not> dless v (Finite 0)" "dless (Finite 0) v"
      | (zero) "\<not> dless v (Finite 0)" "\<not> dless (Finite 0) v"
      using dless_asym by blast
    then show ?thesis
    proof cases
      case neg
      have "scan_points pts a b c k LT GT = scan_points pts a b c (k + 1) True GT"
        using True sub neg by (subst scan_points.simps) (simp add: v_def)
      also have "\<dots> = Inr (True, GT \<or> (\<exists>m. Suc (unat k) \<le> m \<and> m < length pts \<and> dless (Finite 0) (dsub (dadd (dmul a (Finite (fst (pts ! m)))) (dmul b (Finite (snd (pts ! m))))) c)))"
        using "1.IH"(1) [OF True sub _ _ ok] neg by (simp add: v_def suc)
      finally show ?thesis using neg lt by (auto simp: v_def split)
    next
      case pos
      have "scan_points pts a b c k LT GT = scan_points pts a b c (k + 1) LT True"
        using True sub pos by (subst scan_points.simps) (simp add: v_def)
      also have "\<dots> = Inr (LT \<or> (\<exists>m. Suc (unat k) \<le> m \<and> m < length pts \<and> dless (dsub (dadd (dmul a (Finite (fst (pts ! m)))) (dmul b (Finite (snd (pts ! m))))) c) (Finite 0)), True)"
        using "1.IH"(2) [OF True sub _ _ _ ok] pos by (simp add: v_def suc)
      finally show ?thesis using pos lt by (auto simp: v_def split)
    next
      case zero
      have "scan_points pts a b c k LT GT = scan_points pts a b c (k + 1) LT GT"
        using True sub zero by (subst scan_points.simps) (simp add: v_def)
      also have "\<dots> = Inr (LT \<or> (\<exists>m. Suc (unat k) \<le> m \<and> m < length pts \<and> dless (dsub (dadd (dmul a (Finite (fst (pts ! m)))) (dmul b (Finite (snd (pts ! m))))) c) (Finite 0)),
           GT \<or> (\<exists>m. Suc (unat k) \<le> m \<and> m < length pts \<and> dless (Finite 0) (dsub (dadd (dmul a (Finite (fst (pts ! m)))) (dmul b (Finite (snd (pts ! m))))) c)))"
        using "1.IH"(3) [OF True sub _ _ _ ok] zero by (simp add: v_def suc)
      finally show ?thesis using zero lt by (auto simp: v_def split)
    qed
  qed
qed

lemma has_flags_nth:
  "hasNegative pts p q \<longleftrightarrow>
     (\<exists>m. 0 \<le> m \<and> m < length pts \<and> dless (signed_value p q (pts ! m)) (Finite 0))"
  "hasPositive pts p q \<longleftrightarrow>
     (\<exists>m. 0 \<le> m \<and> m < length pts \<and> dless (Finite 0) (signed_value p q (pts ! m)))"
  unfolding hasNegative_def hasPositive_def by (force simp: in_set_conv_nth)+

lemma scan_points_flags:
  assumes "vector_ok pts"
  shows "scan_points pts (dsub (Finite (snd q)) (Finite (snd p))) (dsub (Finite (fst p)) (Finite (fst q)))
           (dsub (dmul (Finite (snd q)) (Finite (fst p))) (dmul (Finite (snd p)) (Finite (fst q))))
           0 False False
           = Inr (hasNegative pts p q, hasPositive pts p q)"
  unfolding scan_points_result [OF assms] has_flags_nth
  by (simp add: signed_value_def)

subsection \<open>The loops over pairs\<close>

lemma edges_from_step:
  "j < length pts \<Longrightarrow> edges_from pts i j =
     (if accepted pts (pts ! i) (pts ! j) then [(pts ! i, pts ! j)] else []) @ edges_from pts i (Suc j)"
  by (simp add: edges_from_def upt_rec [of j])

lemma edges_from_done: "\<not> j < length pts \<Longrightarrow> edges_from pts i j = []"
  by (simp add: edges_from_def)

lemma scan_pairs_result:
  assumes "vector_ok pts" "unat i < length pts"
  shows "scan_pairs pts i j ret_sgmts = Inr (ret_sgmts @ edges_from pts (unat i) (unat j))"
  using assms
proof (induction pts i j ret_sgmts rule: scan_pairs.induct)
  case (1 pts i j ret_sgmts)
  note ok = \<open>vector_ok pts\<close> and i = \<open>unat i < length pts\<close>
  show ?case
  proof (cases "j < size_vec pts")
    case False
    then have "\<not> unat j < length pts" using ok by (simp add: less_size_vec)
    then show ?thesis using False
      by (subst scan_pairs.simps) (simp add: edges_from_done)
  next
    case True
    then have lt: "unat j < length pts" using ok by (simp add: less_size_vec)
    have subj: "subscript pts j = Inr (pts ! unat j)" using lt by (rule subscript_in)
    have subi: "subscript pts i = Inr (pts ! unat i)" using i by (rule subscript_in)
    have suc: "unat (j + 1) = Suc (unat j)" using True by (rule unat_succ)
    let ?p = "pts ! unat i" and ?q = "pts ! unat j"
    have flags: "scan_points pts (dsub (Finite (snd ?q)) (Finite (snd ?p)))
        (dsub (Finite (fst ?p)) (Finite (fst ?q)))
        (dsub (dmul (Finite (snd ?q)) (Finite (fst ?p))) (dmul (Finite (snd ?p)) (Finite (fst ?q))))
        0 False False = Inr (hasNegative pts ?p ?q, hasPositive pts ?p ?q)"
      using ok by (rule scan_points_flags)
    show ?thesis
    proof (cases "accepted pts ?p ?q")
      case acc: True
      then have cond: "hasNegative pts ?p ?q \<noteq> True \<or> hasPositive pts ?p ?q \<noteq> True"
        by (simp add: accepted_def)
      have "scan_pairs pts i j ret_sgmts = scan_pairs pts i (j + 1) (ret_sgmts @ [(?p, ?q)])"
        using True subi subj flags cond by (subst scan_pairs.simps) (simp add: Let_def)
      also have "\<dots> = Inr ((ret_sgmts @ [(?p, ?q)]) @ edges_from pts (unat i) (unat (j + 1)))"
        using "1.IH"(1) [OF True subj subi refl refl refl flags refl cond ok i] .
      finally show ?thesis using acc lt by (simp add: suc edges_from_step [of "unat j"])
    next
      case rej: False
      then have cond: "\<not> (hasNegative pts ?p ?q \<noteq> True \<or> hasPositive pts ?p ?q \<noteq> True)"
        by (simp add: accepted_def)
      have "scan_pairs pts i j ret_sgmts = scan_pairs pts i (j + 1) ret_sgmts"
        using True subi subj flags cond by (subst scan_pairs.simps) (simp add: Let_def)
      also have "\<dots> = Inr (ret_sgmts @ edges_from pts (unat i) (unat (j + 1)))"
        using "1.IH"(2) [OF True subj subi refl refl refl flags refl cond ok i] .
      finally show ?thesis using rej lt by (simp add: suc edges_from_step [of "unat j"])
    qed
  qed
qed

lemma size_vec_pred: "vector_ok pts \<Longrightarrow> pts \<noteq> [] \<Longrightarrow> unat (size_vec pts - 1) = length pts - 1"
proof -
  assume ok: "vector_ok pts" and ne: "pts \<noteq> []"
  then have "size_vec pts \<noteq> 0"
    by (metis length_0_conv size_vec_unat unat_0)
  then show ?thesis by (simp add: unat_minus_one size_vec_unat ok)
qed

lemma edges_step:
  "i < length pts - 1 \<Longrightarrow> edges pts i = edges_from pts i (Suc i) @ edges pts (Suc i)"
  by (simp add: edges_def upt_rec [of i])

lemma edges_done: "\<not> i < length pts - 1 \<Longrightarrow> edges pts i = []"
  by (simp add: edges_def)

lemma scan_origins_result:
  assumes "vector_ok pts" "pts \<noteq> []"
  shows "scan_origins pts i ret_sgmts = Inr (ret_sgmts @ edges pts (unat i))"
  using assms
proof (induction pts i ret_sgmts rule: scan_origins.induct)
  case (1 pts i ret_sgmts)
  note ok = \<open>vector_ok pts\<close> and ne = \<open>pts \<noteq> []\<close>
  have bound: "i < size_vec pts - 1 \<longleftrightarrow> unat i < length pts - 1"
    using ok ne by (simp add: word_less_nat_alt size_vec_pred)
  show ?case
  proof (cases "i < size_vec pts - 1")
    case False
    then show ?thesis using bound
      by (subst scan_origins.simps) (simp add: edges_done)
  next
    case True
    then have lt: "unat i < length pts - 1" using bound by simp
    then have i: "unat i < length pts" by simp
    have suc: "unat (i + 1) = Suc (unat i)" using True by (rule unat_succ)
    have pairs: "scan_pairs pts i (i + 1) ret_sgmts = Inr (ret_sgmts @ edges_from pts (unat i) (Suc (unat i)))"
      using scan_pairs_result [OF ok i] by (simp add: suc)
    have "scan_origins pts i ret_sgmts
            = scan_origins pts (i + 1) (ret_sgmts @ edges_from pts (unat i) (Suc (unat i)))"
      using True pairs by (subst scan_origins.simps) simp
    also have "\<dots> = Inr ((ret_sgmts @ edges_from pts (unat i) (Suc (unat i))) @ edges pts (unat (i + 1)))"
      using "1.IH" [OF True pairs ok ne] .
    finally show ?thesis using lt by (simp add: suc edges_step [of "unat i"])
  qed
qed

lemma scan_origins_empty: "scan_origins [] i ret_sgmts = Inr ret_sgmts"
proof (induction "[] :: point list" i ret_sgmts rule: scan_origins.induct)
  case (1 i ret_sgmts)
  have pairs: "scan_pairs [] i (i + 1) ret_sgmts = Inr ret_sgmts"
    by (subst scan_pairs.simps) (simp add: size_vec_def)
  show ?case
  proof (cases "i < size_vec ([] :: point list) - 1")
    case True
    then show ?thesis using "1.hyps" [OF True pairs] pairs
      by (subst scan_origins.simps) simp
  next
    case False
    then show ?thesis by (subst scan_origins.simps) simp
  qed
qed

lemma brute_force_result:
  assumes "vector_ok pts"
  shows "brute_force_convex_hull pts ret_sgmts = Inr (ret_sgmts @ edges pts 0)"
proof (cases "pts = []")
  case True
  then show ?thesis
    by (simp add: brute_force_convex_hull_def scan_origins_empty edges_def)
next
  case False
  then show ?thesis using assms
    by (simp add: brute_force_convex_hull_def scan_origins_result)
qed

lemma set_edges_from:
  "set (edges_from pts i j) =
     {(pts ! i, pts ! j') | j'. j \<le> j' \<and> j' < length pts \<and> accepted pts (pts ! i) (pts ! j')}"
  by (auto simp: edges_from_def)

lemma set_edges:
  "set (edges pts 0) =
     {(pts ! i, pts ! j) | i j. i < j \<and> j < length pts \<and> accepted pts (pts ! i) (pts ! j)}"
  (is "?L = ?R")
proof (rule set_eqI, rule iffI)
  fix x assume "x \<in> ?L"
  then obtain i where i: "i < length pts - 1" and x: "x \<in> set (edges_from pts i (Suc i))"
    by (auto simp: edges_def)
  from x obtain j where "Suc i \<le> j" "j < length pts" "accepted pts (pts ! i) (pts ! j)"
    "x = (pts ! i, pts ! j)"
    unfolding set_edges_from by blast
  then show "x \<in> ?R" by (intro CollectI exI [of _ i] exI [of _ j]) simp
next
  fix x assume "x \<in> ?R"
  then obtain i j where ij: "i < j" "j < length pts" "accepted pts (pts ! i) (pts ! j)"
    and x: "x = (pts ! i, pts ! j)" by blast
  have "x \<in> set (edges_from pts i (Suc i))"
    unfolding set_edges_from using ij x by (intro CollectI exI [of _ j]) simp
  moreover have "i \<in> set [0..<length pts - 1]" using ij by simp
  ultimately show "x \<in> ?L" unfolding edges_def set_concat set_map by blast
qed

section \<open>The set of end points\<close>

lemma point_less_irrefl: "\<not> point_less p p"
  by (simp add: point_less_def)

lemma point_less_trans: "point_less p q \<Longrightarrow> point_less q r \<Longrightarrow> point_less p r"
  by (auto simp: point_less_def)

lemma point_less_total: "\<not> point_less p q \<Longrightarrow> \<not> point_less q p \<Longrightarrow> p = q"
  by (auto simp: point_less_def prod_eq_iff)

lemma point_less_lex: "point_less p q \<longleftrightarrow> fst p < fst q \<or> (fst p = fst q \<and> snd p < snd q)"
  by (auto simp: point_less_def)

lemma set_set_insert: "set (set_insert p s) = insert p (set s)"
  by (induction s) (auto dest: point_less_total)

lemma sorted_set_insert:
  "sorted_wrt point_less s \<Longrightarrow> sorted_wrt point_less (set_insert p s)"
proof (induction s)
  case Nil
  show ?case by simp
next
  case (Cons q qs)
  then show ?case
    by (auto simp: set_set_insert intro: point_less_trans)
qed

lemma set_transform_inserter: "set (transform_inserter sgmts s op) = op ` set sgmts \<union> set s"
  unfolding transform_inserter_def
  by (induction sgmts arbitrary: s) (auto simp: set_set_insert)

lemma sorted_transform_inserter:
  "sorted_wrt point_less s \<Longrightarrow> sorted_wrt point_less (transform_inserter sgmts s op)"
  unfolding transform_inserter_def
  by (induction sgmts arbitrary: s) (auto simp: sorted_set_insert)

lemma sorted_point_less_distinct: "sorted_wrt point_less s \<Longrightarrow> distinct s"
  by (induction s) (auto simp: point_less_irrefl)

section \<open>The three branches of find_hull\<close>

lemma size_vec_eq_0: "vector_ok pts \<Longrightarrow> size_vec pts = 0 \<longleftrightarrow> pts = []"
  by (simp add: word_unat_eq_iff size_vec_unat)

lemma size_vec_eq_1: "vector_ok pts \<Longrightarrow> size_vec pts = 1 \<longleftrightarrow> length pts = 1"
  by (simp add: word_unat_eq_iff size_vec_unat)

lemma find_hull_empty: "find_hull [] ret = \<lparr>outcome = Inl InvalidInput, enumerator_calls = []\<rparr>"
  by (simp add: find_hull_def size_vec_def)

lemma find_hull_single: "find_hull [p] ret = \<lparr>outcome = Inr (ret @ [p]), enumerator_calls = []\<rparr>"
  by (simp add: find_hull_def size_vec_def)

lemma find_hull_many:
  assumes "vector_ok pts" "2 \<le> length pts"
  shows "find_hull pts ret = \<lparr>outcome = Inr (ret @ hull_of pts), enumerator_calls = [pts]\<rparr>"
proof -
  have "size_vec pts \<noteq> 0" "size_vec pts \<noteq> 1"
    using assms by (auto simp: size_vec_eq_0 size_vec_eq_1)
  then show ?thesis
    using brute_force_result [OF assms(1), of "[]"]
    by (simp add: find_hull_def hull_of_def)
qed

lemma set_hull_of: "set (hull_of pts) = fst ` set (edges pts 0) \<union> snd ` set (edges pts 0)"
proof -
  have "get_first = fst" "get_second = snd"
    by (auto simp: get_first_def get_second_def fun_eq_iff)
  then show ?thesis by (auto simp: hull_of_def set_transform_inserter)
qed

lemma sorted_hull_of: "sorted_wrt point_less (hull_of pts)"
  by (simp add: hull_of_def sorted_transform_inserter)

section \<open>Properties of the hull\<close>



lemma computeHull_cases:
  assumes "vector_ok pts" "pts \<noteq> []"
  shows "computeHull pts = Inr (if length pts = 1 then pts else hull_of pts)"
proof (cases "length pts = 1")
  case True
  then obtain p where "pts = [p]" by (cases pts) auto
  then show ?thesis by (simp add: computeHull_def find_hull_single)
next
  case False
  then have "2 \<le> length pts" using assms(2) by (cases pts) (auto simp: Suc_le_eq)
  then show ?thesis using False by (simp add: computeHull_def find_hull_many [OF assms(1)])
qed

text \<open>
  Claim C3. For a non-empty input the result of \<open>computeHull\<close> is strictly ascending in the
  lexicographic order of points (first coordinate, then second coordinate) and has no
  duplicates.
\<close>

theorem hull_strictly_ascending:
  assumes "vector_ok pts" "pts \<noteq> []"
  shows "\<exists>hull_pts. computeHull pts = Inr hull_pts \<and>
           sorted_wrt (\<lambda>p q. fst p < fst q \<or> (fst p = fst q \<and> snd p < snd q)) hull_pts \<and> distinct hull_pts"
proof -
  let ?hull = "if length pts = 1 then pts else hull_of pts"
  have lex: "(\<lambda>p q. fst p < fst q \<or> (fst p = fst q \<and> snd p < snd q)) = point_less"
    by (simp add: fun_eq_iff point_less_lex)
  have s: "sorted_wrt point_less ?hull"
  proof (cases "length pts = 1")
    case True
    then obtain p where "pts = [p]" by (cases pts) auto
    then show ?thesis by simp
  next
    case False
    then show ?thesis by (simp add: sorted_hull_of)
  qed
  then have "distinct ?hull" by (rule sorted_point_less_distinct)
  then show ?thesis using s computeHull_cases [OF assms] unfolding lex by blast
qed

theorem hull_strictly_ascending_witness:
  "vector_ok [(2, 0), (0, 0), (1, 5) :: point] \<and> [(2, 0), (0, 0), (1, 5) :: point] \<noteq> [] \<and>
   (\<exists>hull_pts. computeHull [(2, 0), (0, 0), (1, 5)] = Inr hull_pts \<and>
      sorted_wrt (\<lambda>p q. fst p < fst q \<or> (fst p = fst q \<and> snd p < snd q)) hull_pts \<and>
      distinct hull_pts)"
proof -
  have h: "vector_ok [(2, 0), (0, 0), (1, 5) :: point]" "[(2, 0), (0, 0), (1, 5) :: point] \<noteq> []"
    by (simp_all add: vector_ok_def)
  from hull_strictly_ascending [OF h] show ?thesis using h by blast
qed

lemma find_hull_cases:
  assumes "vector_ok pts"
  shows "find_hull pts ret =
     (if pts = [] then \<lparr>outcome = Inl InvalidInput, enumerator_calls = []\<rparr>
      else if length pts = 1 then \<lparr>outcome = Inr (ret @ pts), enumerator_calls = []\<rparr>
      else \<lparr>outcome = Inr (ret @ hull_of pts), enumerator_calls = [pts]\<rparr>)"
proof -
  consider "pts = []" | p where "pts = [p]" | "2 \<le> length pts"
    by (cases pts rule: remdups_adj.cases) auto
  then show ?thesis
  proof cases
    case 1 then show ?thesis by (simp add: find_hull_empty)
  next
    case 2 then show ?thesis by (simp add: find_hull_single)
  next
    case 3
    then have "pts \<noteq> []" "length pts \<noteq> 1" by auto
    then show ?thesis by (simp add: find_hull_many [OF assms 3])
  qed
qed

text \<open>
  Claim C5. \<^verbatim>\<open>find_hull\<close> throws \<open>InvalidInput\<close> exactly when the input is empty; it throws
  nothing else, the exception is thrown before the enumerator is called, and an empty input
  never yields a normal return (in particular not an empty result).
\<close>

theorem invalid_input_iff_empty:
  assumes "vector_ok pts"
  shows "(outcome (find_hull pts ret) = Inl InvalidInput \<longleftrightarrow> pts = []) \<and>
         (computeHull pts = Inl InvalidInput \<longleftrightarrow> pts = []) \<and>
         (\<forall>e. outcome (find_hull pts ret) = Inl e \<longrightarrow>
            e = InvalidInput \<and> pts = [] \<and> enumerator_calls (find_hull pts ret) = []) \<and>
         (pts = [] \<longrightarrow> outcome (find_hull pts ret) \<noteq> Inr [] \<and> outcome (find_hull pts ret) \<noteq> Inr ret)"
  by (simp add: find_hull_cases [OF assms] find_hull_empty computeHull_def)

theorem invalid_input_iff_empty_witness:
  "vector_ok ([] :: point list) \<and> vector_ok [(1, 1) :: point] \<and>
   outcome (find_hull [] [(7, 7)]) = Inl InvalidInput \<and>
   computeHull [] = Inl InvalidInput \<and>
   outcome (find_hull [(1, 1)] [(7, 7)]) \<noteq> Inl InvalidInput"
proof -
  have h: "vector_ok ([] :: point list)" "vector_ok [(1, 1) :: point]"
    by (simp_all add: vector_ok_def)
  from invalid_input_iff_empty [OF h(1), of "[(7, 7)]"] invalid_input_iff_empty [OF h(2), of "[(7, 7)]"]
  show ?thesis using h by simp
qed

text \<open>
  Claim C6. For an input of exactly one point \<^verbatim>\<open>find_hull\<close> appends that point and does not
  call the enumerator; \<open>computeHull\<close> of the single point (2, 3) is the sequence holding
  (2, 3) alone.
\<close>

theorem singleton_hull:
  "find_hull [p] ret = \<lparr>outcome = Inr (ret @ [p]), enumerator_calls = []\<rparr> \<and>
   computeHull [p] = Inr [p] \<and>
   computeHull [(2, 3)] = Inr [(2, 3)]"
  by (simp add: find_hull_single computeHull_def)

theorem singleton_hull_witness:
  "outcome (find_hull [(5, - 1)] [(7, 7)]) = Inr [(7, 7), (5, - 1)] \<and>
   enumerator_calls (find_hull [(5, - 1)] [(7, 7)]) = []"
  using singleton_hull [of "(5, - 1)" "[(7, 7)]"] by simp

section \<open>The side test under rounding\<close>

text \<open>By the formula, the two end points of a pair lie on the line through them.\<close>

lemma signed_value_exact_endpoints:
  "signed_value_exact p q p = 0" "signed_value_exact p q q = 0"
  by (simp_all add: signed_value_exact_def algebra_simps)

text \<open>
  Claim C1. The enumerator should accept a pair of points exactly when it is not the case
  that some point of the set has a strictly negative signed value and some point a strictly
  positive one, and the two end points of the pair should have signed value 0. For the two
  points (1, 100000001) and (200000003, 7) the program does otherwise: by the formula both
  end points have signed value 0, so that no point lies strictly on either side of the line,
  but the values computed in doubles are 4 and -4, both flags are set, and the only pair is
  not among the returned segments.
\<close>

theorem end_points_not_on_their_line:
  "signed_value_exact (1, 100000001) (200000003, 7) (1, 100000001) = 0 \<and>
   signed_value_exact (1, 100000001) (200000003, 7) (200000003, 7) = 0 \<and>
   signed_value (1, 100000001) (200000003, 7) (1, 100000001) = Finite 4 \<and>
   signed_value (1, 100000001) (200000003, 7) (200000003, 7) = Finite (- 4) \<and>
   hasNegative [(1, 100000001), (200000003, 7)] (1, 100000001) (200000003, 7) \<and>
   hasPositive [(1, 100000001), (200000003, 7)] (1, 100000001) (200000003, 7) \<and>
   brute_force_convex_hull [(1, 100000001), (200000003, 7)] [] = Inr []"
proof -
  let ?P = "[(1, 100000001), (200000003, 7)] :: point list"
  have "vector_ok ?P" by (simp add: vector_ok_def)
  then have "brute_force_convex_hull ?P [] = Inr ([] @ edges ?P 0)"
    by (rule brute_force_result)
  moreover have "edges ?P 0 = []"
    by (simp add: evaluate_hull round_double_examples)
  moreover have "signed_value (1, 100000001) (200000003, 7) (1, 100000001) = Finite 4"
    "signed_value (1, 100000001) (200000003, 7) (200000003, 7) = Finite (- 4)"
    by (simp_all add: signed_value_def double_ops round_double_examples)
  ultimately show ?thesis
    by (simp add: signed_value_exact_endpoints hasNegative_def hasPositive_def)
qed

text \<open>
  Claim C4. All points of the input should lie in one closed half-plane of the line through
  a returned segment. For the four vertices of the convex quadrilateral below the program
  returns five segments, among them the diagonal from (200000000, 200000001) to
  (200000003, 200000003): by the formula the vertex (200000000, 200000003) has signed value
  -6 for the line through the diagonal and the vertex (200000001, 200000001) has signed
  value 2, one strictly on each side, while the values computed in doubles are -9 and -1.
\<close>

theorem diagonal_accepted_as_edge:
  "brute_force_convex_hull
     [(200000000, 200000001), (200000000, 200000003),
      (200000001, 200000001), (200000003, 200000003)] [] =
   Inr [((200000000, 200000001), (200000000, 200000003)),
        ((200000000, 200000001), (200000001, 200000001)),
        ((200000000, 200000001), (200000003, 200000003)),
        ((200000000, 200000003), (200000001, 200000001)),
        ((200000001, 200000001), (200000003, 200000003))] \<and>
   signed_value_exact (200000000, 200000001) (200000003, 200000003) (200000000, 200000003) = - 6 \<and>
   signed_value_exact (200000000, 200000001) (200000003, 200000003) (200000001, 200000001) = 2 \<and>
   signed_value (200000000, 200000001) (200000003, 200000003) (200000000, 200000003) = Finite (- 9) \<and>
   signed_value (200000000, 200000001) (200000003, 200000003) (200000001, 200000001) = Finite (- 1)"
proof -
  let ?Q = "[(200000000, 200000001), (200000000, 200000003),
      (200000001, 200000001), (200000003, 200000003)] :: point list"
  have "vector_ok ?Q" by (simp add: vector_ok_def)
  then have "brute_force_convex_hull ?Q [] = Inr ([] @ edges ?Q 0)"
    by (rule brute_force_result)
  moreover have "edges ?Q 0 =
     [((200000000, 200000001), (200000000, 200000003)),
      ((200000000, 200000001), (200000001, 200000001)),
      ((200000000, 200000001), (200000003, 200000003)),
      ((200000000, 200000003), (200000001, 200000001)),
      ((200000001, 200000001), (200000003, 200000003))]"
    by (simp add: evaluate_hull round_double_examples_55)
  moreover have
    "signed_value (200000000, 200000001) (200000003, 200000003) (200000000, 200000003) = Finite (- 9)"
    "signed_value (200000000, 200000001) (200000003, 200000003) (200000001, 200000001) = Finite (- 1)"
    by (simp_all add: signed_value_def double_ops round_double_examples_55)
  ultimately show ?thesis
    by (simp add: signed_value_exact_def)
qed

subsection \<open>Running the hull computation on its own result\<close>

text \<open>
  Claim C7. Running \<open>computeHull\<close> on its own result should return the same set of points.
  For the two distinct points (1, 100000001) and (200000003, 7) it does not: rounding makes
  the signed values of the two end points 4 and -4, the only pair is rejected, the first run
  returns the empty sequence, and the second run, on the empty sequence, throws
  \<open>InvalidInput\<close>.
\<close>

theorem hull_of_two_points_empty:
  "distinct [(1, 100000001), (200000003, 7) :: point] \<and>
   computeHull [(1, 100000001), (200000003, 7)] = Inr [] \<and>
   computeHull [] = Inl InvalidInput"
proof -
  let ?P = "[(1, 100000001), (200000003, 7)] :: point list"
  have "vector_ok ?P" "2 \<le> length ?P" by (simp_all add: vector_ok_def)
  then have "computeHull ?P = Inr (hull_of ?P)"
    by (simp add: computeHull_def find_hull_many)
  moreover have "hull_of ?P = []"
    by (simp add: evaluate_hull round_double_examples)
  ultimately show ?thesis
    by (simp add: computeHull_def find_hull_empty)
qed

section \<open>A concrete input, bounds of subscripts, and the output parameter\<close>

text \<open>
  Claim C8. For the four corners of a square together with its centre, \<open>computeHull\<close> returns
  the four corners in lexicographic order; the centre (1, 1) is not among them.
\<close>

theorem square_with_interior_point:
  "computeHull [(0, 0), (0, 2), (2, 0), (2, 2), (1, 1)] = Inr [(0, 0), (0, 2), (2, 0), (2, 2)] \<and>
   (1, 1) \<notin> set [(0, 0), (0, 2), (2, 0), (2, 2) :: point]"
proof -
  let ?P = "[(0, 0), (0, 2), (2, 0), (2, 2), (1, 1)] :: point list"
  have "vector_ok ?P" "2 \<le> length ?P" by (simp_all add: vector_ok_def)
  then have "computeHull ?P = Inr (hull_of ?P)"
    by (simp add: computeHull_def find_hull_many)
  also have "hull_of ?P = [(0, 0), (0, 2), (2, 0), (2, 2)]"
    by (simp add: evaluate_hull)
  finally show ?thesis by simp
qed

theorem square_with_interior_point_witness:
  "\<exists>hull_pts. computeHull [(0, 0), (0, 2), (2, 0), (2, 2), (1, 1)] = Inr hull_pts \<and>
      length hull_pts = 4 \<and> (1, 1) \<notin> set hull_pts"
  using square_with_interior_point by simp

text \<open>
  Claim C9. Called on two or more points, the enumerator returns normally: no subscript is
  outside the vector (an access outside would make the result \<open>out_of_range\<close>). Every call of
  the enumerator made by \<^verbatim>\<open>find_hull\<close> has the input of two or more points as its argument,
  so that \<^verbatim>\<open>pts.size() - 1\<close> does not wrap around there; on an empty input, where it would
  wrap around to \<open>2\<^sup>6\<^sup>4 - 1\<close>, the enumerator is not called.
\<close>

theorem enumerator_indices_in_bounds:
  assumes "vector_ok pts"
  shows "(2 \<le> length pts \<longrightarrow>
            (\<exists>sgmts. brute_force_convex_hull pts ret_sgmts = Inr sgmts) \<and>
            brute_force_convex_hull pts ret_sgmts \<noteq> Inl out_of_range) \<and>
         (\<forall>ps \<in> set (enumerator_calls (find_hull pts ret)).
            ps = pts \<and> 2 \<le> length ps \<and> size_vec ps \<noteq> 0 \<and> unat (size_vec ps - 1) = length ps - 1) \<and>
         (pts = [] \<longrightarrow> enumerator_calls (find_hull pts ret) = []) \<and>
         unat (size_vec ([] :: point list) - 1) = 2 ^ 64 - 1"
proof (intro conjI impI ballI)
  show "\<exists>sgmts. brute_force_convex_hull pts ret_sgmts = Inr sgmts"
    and "brute_force_convex_hull pts ret_sgmts \<noteq> Inl out_of_range"
    by (simp_all add: brute_force_result [OF assms])
  show "unat (size_vec ([] :: point list) - 1) = 2 ^ 64 - 1"
    by (simp add: size_vec_def unsigned_minus_1_eq_mask mask_eq_exp_minus_1)
  show "enumerator_calls (find_hull pts ret) = []" if "pts = []"
    using that by (simp add: find_hull_empty)
next
  fix ps assume "ps \<in> set (enumerator_calls (find_hull pts ret))"
  then have ps: "ps = pts" and n: "pts \<noteq> []" "length pts \<noteq> 1"
    by (auto simp: find_hull_cases [OF assms] split: if_splits)
  show "ps = pts" by (rule ps)
  show "2 \<le> length ps" using n ps by (cases pts) (auto simp: Suc_le_eq)
  show "size_vec ps \<noteq> 0" using n ps assms by (simp add: size_vec_eq_0)
  show "unat (size_vec ps - 1) = length ps - 1" using n ps assms by (simp add: size_vec_pred)
qed

theorem enumerator_indices_in_bounds_witness:
  "vector_ok [(0, 0), (1, 1), (2, 0) :: point] \<and> 2 \<le> length [(0, 0), (1, 1), (2, 0) :: point] \<and>
   (\<exists>sgmts. brute_force_convex_hull [(0, 0), (1, 1), (2, 0)] [] = Inr sgmts) \<and>
   enumerator_calls (find_hull [(0, 0), (1, 1), (2, 0)] []) = [[(0, 0), (1, 1), (2, 0)]] \<and>
   unat (size_vec [(0, 0), (1, 1), (2, 0) :: point] - 1) = 2"
proof -
  let ?P = "[(0, 0), (1, 1), (2, 0)] :: point list"
  have h: "vector_ok ?P"
    by (simp add: vector_ok_def)
  have calls: "enumerator_calls (find_hull ?P []) = [?P]"
    by (simp add: find_hull_many [OF h])
  from enumerator_indices_in_bounds [OF h, of "[]" "[]"] show ?thesis
    unfolding calls using h by simp
qed

lemma find_hull_ref_outcome:
  "find_hull_ref pts ret_hull_points s =
     (case outcome (find_hull (s pts) (s ret_hull_points)) of
        Inl e \<Rightarrow> Inl e
      | Inr v \<Rightarrow> Inr (s(ret_hull_points := v)))"
  by (simp add: find_hull_ref_def find_hull_def Let_def split: sum.splits)

lemma find_hull_ref_result:
  assumes "vector_ok (s pts)" "s pts \<noteq> []"
  shows "find_hull_ref pts ret_hull_points s =
     Inr (s(ret_hull_points :=
            s ret_hull_points @ (if length (s pts) = 1 then s pts else hull_of (s pts))))"
  using assms(2) by (simp add: find_hull_ref_outcome find_hull_cases [OF assms(1)])

text \<open>
  Claim C10. On a non-empty input \<^verbatim>\<open>find_hull\<close> returns normally, changes no vector other
  than \<^verbatim>\<open>ret_hull_points\<close>, and changes \<^verbatim>\<open>ret_hull_points\<close> only by appending: what was in it
  before the call is still there, unchanged and in place, followed by the hull points.
  The hull points are the input point itself for a single point, and for two or more points
  the strictly ascending sequence of the end points of the segments returned by the
  enumerator; they are what \<open>computeHull\<close> returns for the input. The input vector is
  therefore unchanged when it is another vector than \<^verbatim>\<open>ret_hull_points\<close>. When the same
  vector is passed for both parameters, the input itself has the hull points appended to
  it: the example after the theorem shows a call that modifies its input.
\<close>

theorem find_hull_appends:
  assumes "vector_ok (s pts)" "s pts \<noteq> []"
  shows "\<exists>hull_pts s'. find_hull_ref pts ret_hull_points s = Inr s' \<and>
           s' ret_hull_points = s ret_hull_points @ hull_pts \<and>
           (\<forall>v. v \<noteq> ret_hull_points \<longrightarrow> s' v = s v) \<and>
           (pts \<noteq> ret_hull_points \<longrightarrow> s' pts = s pts) \<and>
           (pts = ret_hull_points \<longrightarrow> s' pts = s pts @ hull_pts) \<and>
           (length (s pts) = 1 \<longrightarrow> hull_pts = s pts) \<and>
           (2 \<le> length (s pts) \<longrightarrow>
              (\<exists>sgmts. brute_force_convex_hull (s pts) [] = Inr sgmts \<and>
                 set hull_pts = get_first ` set sgmts \<union> get_second ` set sgmts \<and>
                 sorted_wrt point_less hull_pts)) \<and>
           computeHull (s pts) = Inr hull_pts"
proof -
  let ?hull = "if length (s pts) = 1 then s pts else hull_of (s pts)"
  let ?s' = "s(ret_hull_points := s ret_hull_points @ ?hull)"
  have f: "get_first = fst" "get_second = snd"
    by (auto simp: get_first_def get_second_def fun_eq_iff)
  have run: "find_hull_ref pts ret_hull_points s = Inr ?s'"
    using assms by (rule find_hull_ref_result)
  have ret: "?s' ret_hull_points = s ret_hull_points @ ?hull"
    by simp
  have frame: "\<forall>v. v \<noteq> ret_hull_points \<longrightarrow> ?s' v = s v"
    by simp
  have unchanged: "pts \<noteq> ret_hull_points \<longrightarrow> ?s' pts = s pts"
    by simp
  have same: "pts = ret_hull_points \<longrightarrow> ?s' pts = s pts @ ?hull"
    by simp
  have single: "length (s pts) = 1 \<longrightarrow> ?hull = s pts"
    by simp
  have many: "2 \<le> length (s pts) \<longrightarrow>
      (\<exists>sgmts. brute_force_convex_hull (s pts) [] = Inr sgmts \<and>
         set ?hull = get_first ` set sgmts \<union> get_second ` set sgmts \<and>
         sorted_wrt point_less ?hull)"
  proof
    assume n: "2 \<le> length (s pts)"
    then have h: "?hull = hull_of (s pts)" by simp
    have "brute_force_convex_hull (s pts) [] = Inr (edges (s pts) 0)"
      using brute_force_result [OF assms(1), of "[]"] by simp
    moreover have "set (hull_of (s pts)) =
        get_first ` set (edges (s pts) 0) \<union> get_second ` set (edges (s pts) 0)"
      unfolding f by (rule set_hull_of)
    moreover have "sorted_wrt point_less (hull_of (s pts))"
      by (rule sorted_hull_of)
    ultimately show "\<exists>sgmts. brute_force_convex_hull (s pts) [] = Inr sgmts \<and>
         set ?hull = get_first ` set sgmts \<union> get_second ` set sgmts \<and>
         sorted_wrt point_less ?hull"
      unfolding h by blast
  qed
  have fresh: "computeHull (s pts) = Inr ?hull"
    using assms by (rule computeHull_cases)
  from run ret frame unchanged same single many fresh show ?thesis
    by blast
qed

theorem find_hull_appends_counterexample:
  "find_hull_ref 0 0 ((\<lambda>v. [])(0 := [(2, 3)])) = Inr ((\<lambda>v. [])(0 := [(2, 3), (2, 3)])) \<and>
   ((\<lambda>v. [])(0 := [(2, 3), (2, 3)]) :: memory) 0 \<noteq> ((\<lambda>v. [])(0 := [(2, 3)]) :: memory) 0 \<and>
   find_hull_ref 0 0 ((\<lambda>v. [])(0 := [(0, 0), (0, 2), (2, 0), (2, 2), (1, 1)])) =
     Inr ((\<lambda>v. [])(0 := [(0, 0), (0, 2), (2, 0), (2, 2), (1, 1), (0, 0), (0, 2), (2, 0), (2, 2)]))"
proof -
  let ?P = "[(0, 0), (0, 2), (2, 0), (2, 2), (1, 1)] :: point list"
  have "find_hull_ref 0 0 ((\<lambda>v. [])(0 := [(2, 3)])) = Inr ((\<lambda>v. [])(0 := [(2, 3), (2, 3)]))"
    by (simp add: find_hull_ref_def size_vec_def)
  moreover have "hull_of ?P = [(0, 0), (0, 2), (2, 0), (2, 2)]"
    by (simp add: evaluate_hull)
  then have "find_hull_ref 0 0 ((\<lambda>v. [])(0 := ?P)) = Inr ((\<lambda>v. [])(0 := ?P @ [(0, 0), (0, 2), (2, 0), (2, 2)]))"
    by (simp add: find_hull_ref_result vector_ok_def)
  ultimately show ?thesis
    by simp
qed

theorem find_hull_appends_witness:
  "vector_ok (((\<lambda>v. [])(0 := [(0, 0), (0, 2), (2, 0), (2, 2), (1, 1)], 1 := [(9, 9)]) :: memory) 0) \<and>
   ((\<lambda>v. [])(0 := [(0, 0), (0, 2), (2, 0), (2, 2), (1, 1)], 1 := [(9, 9)]) :: memory) 0 \<noteq> [] \<and>
   (\<exists>s'. find_hull_ref 0 1 ((\<lambda>v. [])(0 := [(0, 0), (0, 2), (2, 0), (2, 2), (1, 1)], 1 := [(9, 9)])) = Inr s' \<and>
      s' 1 = [(9, 9), (0, 0), (0, 2), (2, 0), (2, 2)] \<and>
      s' 0 = [(0, 0), (0, 2), (2, 0), (2, 2), (1, 1)] \<and>
      s' 2 = [])"
proof -
  let ?P = "[(0, 0), (0, 2), (2, 0), (2, 2), (1, 1)] :: point list"
  let ?s = "(\<lambda>v. [])(0 := ?P, 1 := [(9, 9)]) :: memory"
  have h: "vector_ok (?s 0)" "?s 0 \<noteq> []"
    by (simp_all add: vector_ok_def)
  have "computeHull ?P = Inr (hull_of ?P)"
    by (simp add: computeHull_def find_hull_many vector_ok_def)
  also have "hull_of ?P = [(0, 0), (0, 2), (2, 0), (2, 2)]"
    by (simp add: evaluate_hull)
  finally have fresh: "computeHull (?s 0) = Inr [(0, 0), (0, 2), (2, 0), (2, 2)]"
    by simp
  from find_hull_appends [where s = "?s" and pts = 0 and ret_hull_points = 1, OF h] obtain hull_pts s' where
    r: "find_hull_ref 0 1 ?s = Inr s'" "s' 1 = ?s 1 @ hull_pts"
      "\<forall>v. v \<noteq> 1 \<longrightarrow> s' v = ?s v" "computeHull (?s 0) = Inr hull_pts"
    by blast
  from r(4) fresh have "hull_pts = [(0, 0), (0, 2), (2, 0), (2, 2)]"
    by simp
  with r(2) have "s' 1 = [(9, 9), (0, 0), (0, 2), (2, 0), (2, 2)]"
    by simp
  moreover from r(3) have "s' 0 = ?P" "s' 2 = []"
    by simp_all
  ultimately show ?thesis
    using r(1) h by blast
qed

end
